theory Spec2Isabelle
  imports Main "HOL-Library.Multiset"
begin

section \<open>The index type and undefined behaviour\<close>

text \<open>
  Both files index a \<^verbatim>\<open>std::vector<int>\<close> with variables of type \<^verbatim>\<open>int\<close> (32 bits).
  An index value is modelled as a mathematical integer together with an explicit range
  check: an arithmetic result outside \<open>[INT_MIN, INT_MAX]\<close> is signed overflow, which is
  undefined behaviour in C++ and is the value \<open>Inl SignedOverflow\<close> of the model.
  An element access outside \<open>[0, size)\<close> is undefined behaviour as well and is
  \<open>Inl OutOfBounds\<close>. The elements themselves are only compared and copied, never
  computed with, so they are modelled as integers without a width.
\<close>

datatype error = SignedOverflow | OutOfBounds

definition INT_MAX :: int where
  "INT_MAX = 2147483647"

definition INT_MIN :: int where
  "INT_MIN = - 2147483648"

definition in_int :: "int \<Rightarrow> bool" where
  "in_int x \<longleftrightarrow> INT_MIN \<le> x \<and> x \<le> INT_MAX"

text \<open>
  \<^verbatim>\<open>int n = arr.size();\<close> and \<^verbatim>\<open>int right = arr.size() - 1;\<close> convert an unsigned
  \<^verbatim>\<open>size_t\<close> to \<^verbatim>\<open>int\<close>: the value is reduced modulo \<open>2^32\<close> into the range of
  \<^verbatim>\<open>int\<close>. The unsigned subtraction \<^verbatim>\<open>arr.size() - 1\<close> wraps modulo a power of two
  that \<open>2^32\<close> divides, so the conversion of the mathematical difference gives the same
  value.
\<close>

definition to_int :: "int \<Rightarrow> int" where
  "to_int x = (x + 2147483648) mod 4294967296 - 2147483648"

text \<open>Division of \<^verbatim>\<open>int\<close> truncates towards zero.\<close>

definition tdiv :: "int \<Rightarrow> int \<Rightarrow> int" where
  "tdiv a b = sgn a * sgn b * (\<bar>a\<bar> div \<bar>b\<bar>)"

section \<open>algorithms.cpp\<close>

subsection \<open>bubbleSort\<close>

text \<open>
  \<^verbatim>\<open>
  void bubbleSort(std::vector<int> &arr) {
    int n = arr.size();
    for (int i = 0; i < n - 1; i++) {
      for (int j = 0; j < n - i - 1; j++) {
        if (arr[j] > arr[j + 1]) {
          std::swap(arr[j], arr[j + 1]);
        }
      }
    }
  }
  \<close>
  The inner loop, from its head with the current \<open>j\<close>. The vector is passed and
  returned.
\<close>

function bubbleSort_inner :: "int \<Rightarrow> int \<Rightarrow> int list \<Rightarrow> int \<Rightarrow> error + int list" where
  "bubbleSort_inner n i arr j =
     (if \<not> in_int (n - i) \<or> \<not> in_int (n - i - 1) then Inl SignedOverflow
      else if j < n - i - 1 then
        (if \<not> in_int (j + 1) then Inl SignedOverflow
         else if j < 0 \<or> int (length arr) \<le> j + 1 then Inl OutOfBounds
         else if arr ! nat j > arr ! nat (j + 1)
           then bubbleSort_inner n i (arr[nat j := arr ! nat (j + 1), nat (j + 1) := arr ! nat j]) (j + 1)
           else bubbleSort_inner n i arr (j + 1))
      else Inr arr)"
  by pat_completeness auto
termination
  by (relation "measure (\<lambda>(n, i, arr, j). nat (n - i - 1 - j))") auto

text \<open>
  The outer loop, from its head with the current \<open>i\<close>. The second component of the
  state is a ghost counter of the inner passes that have been run; the code has no such
  variable.
\<close>

function bubbleSort_outer :: "int \<Rightarrow> int list \<Rightarrow> int \<Rightarrow> nat \<Rightarrow> error + (int list \<times> nat)" where
  "bubbleSort_outer n arr i passes =
     (if \<not> in_int (n - 1) then Inl SignedOverflow
      else if i < n - 1 then
        (case bubbleSort_inner n i arr 0 of
           Inl e \<Rightarrow> Inl e
         | Inr arr' \<Rightarrow>
             if \<not> in_int (i + 1) then Inl SignedOverflow
             else bubbleSort_outer n arr' (i + 1) (passes + 1))
      else Inr (arr, passes))"
  by pat_completeness auto
termination
  by (relation "measure (\<lambda>(n, arr, i, passes). nat (n - 1 - i))") auto

definition bubbleSort_run :: "int list \<Rightarrow> error + (int list \<times> nat)" where
  "bubbleSort_run arr = (let n = to_int (int (length arr)) in bubbleSort_outer n arr 0 0)"

text \<open>The vector after the call.\<close>

definition bubbleSort :: "int list \<Rightarrow> error + int list" where
  "bubbleSort arr = (case bubbleSort_run arr of Inl e \<Rightarrow> Inl e | Inr (arr', passes) \<Rightarrow> Inr arr')"

subsection \<open>binarySearch\<close>

text \<open>
  \<^verbatim>\<open>
  int binarySearch(const std::vector<int> &arr, int target) {
    int left = 0;
    int right = arr.size() - 1;
    while (left <= right) {
      int mid = left + (right - left) / 2;
      if (arr[mid] == target)
        return mid;
      if (arr[mid] < target)
        left = mid + 1;
      else
        right = mid - 1;
    }
    return -1;
  }
  \<close>
  One execution of the loop body either returns from the function or leaves new values
  of \<open>left\<close> and \<open>right\<close>.
\<close>

datatype step = Return int | Next int int

definition binarySearch_body :: "int list \<Rightarrow> int \<Rightarrow> int \<Rightarrow> int \<Rightarrow> error + step" where
  "binarySearch_body arr target left right =
     (if \<not> in_int (right - left) then Inl SignedOverflow
      else let mid = left + tdiv (right - left) 2 in
        if \<not> in_int mid then Inl SignedOverflow
        else if mid < 0 \<or> int (length arr) \<le> mid then Inl OutOfBounds
        else if arr ! nat mid = target then Inr (Return mid)
        else if arr ! nat mid < target then
          (if \<not> in_int (mid + 1) then Inl SignedOverflow else Inr (Next (mid + 1) right))
        else
          (if \<not> in_int (mid - 1) then Inl SignedOverflow else Inr (Next left (mid - 1))))"

function binarySearch_loop :: "int list \<Rightarrow> int \<Rightarrow> int \<Rightarrow> int \<Rightarrow> error + int" where
  "binarySearch_loop arr target left right =
     (if left \<le> right then
        (case binarySearch_body arr target left right of
           Inl e \<Rightarrow> Inl e
         | Inr (Return r) \<Rightarrow> Inr r
         | Inr (Next left' right') \<Rightarrow> binarySearch_loop arr target left' right')
      else Inr (- 1))"
  by pat_completeness auto
termination
proof (relation "measure (\<lambda>(arr, target, left, right). nat (right - left + 1))")
  show "wf (measure (\<lambda>(arr, target, left, right). nat (right - left + 1)))"
    by simp
next
  fix arr :: "int list" and target left right :: int and x2 :: step and x21 x22 :: int
  assume le: "left \<le> right"
    and body: "binarySearch_body arr target left right = Inr x2"
    and nxt: "x2 = Next x21 x22"
  have half: "tdiv (right - left) 2 = (right - left) div 2"
    using le by (cases "right - left = 0") (simp_all add: tdiv_def)
  have "(x21 = left + (right - left) div 2 + 1 \<and> x22 = right)
      \<or> (x21 = left \<and> x22 = left + (right - left) div 2 - 1)"
    using body nxt unfolding binarySearch_body_def half Let_def
    by (auto split: if_splits)
  then have "x22 - x21 < right - left"
    using le by auto
  then show "((arr, target, x21, x22), (arr, target, left, right))
      \<in> measure (\<lambda>(arr, target, left, right). nat (right - left + 1))"
    using le by simp
qed

text \<open>
  The states in which the loop head is reached during a call: the initial one, and the
  one each completed iteration leaves.
\<close>

inductive binarySearch_visits :: "int list \<Rightarrow> int \<Rightarrow> int \<Rightarrow> int \<Rightarrow> bool"
  for arr :: "int list" and target :: int where
  visits_init: "binarySearch_visits arr target 0 (to_int (int (length arr) - 1))"
| visits_step: "binarySearch_visits arr target left right \<Longrightarrow> left \<le> right \<Longrightarrow>
     binarySearch_body arr target left right = Inr (Next left' right') \<Longrightarrow>
     binarySearch_visits arr target left' right'"

definition binarySearch :: "int list \<Rightarrow> int \<Rightarrow> error + int" where
  "binarySearch arr target = binarySearch_loop arr target 0 (to_int (int (length arr) - 1))"

section \<open>algorithms_clone.cpp\<close>

subsection \<open>sortArray\<close>

text \<open>
  \<^verbatim>\<open>
  void sortArray(std::vector<int> &data) {
    int len = data.size();
    bool swapped;
    for (int i = 0; i < len - 1; i++) {
      swapped = false;
      for (int j = 0; j < len - i - 1; j++) {
        if (data[j] > data[j + 1]) {
          int temp = data[j];
          data[j] = data[j + 1];
          data[j + 1] = temp;
          swapped = true;
        }
      }
      if (!swapped)
        break;
    }
  }
  \<close>
  The inner loop carries the vector and the flag \<open>swapped\<close>.
\<close>

function sortArray_inner :: "int \<Rightarrow> int \<Rightarrow> int list \<Rightarrow> bool \<Rightarrow> int \<Rightarrow> error + (int list \<times> bool)" where
  "sortArray_inner len i data swapped j =
     (if \<not> in_int (len - i) \<or> \<not> in_int (len - i - 1) then Inl SignedOverflow
      else if j < len - i - 1 then
        (if \<not> in_int (j + 1) then Inl SignedOverflow
         else if j < 0 \<or> int (length data) \<le> j + 1 then Inl OutOfBounds
         else if data ! nat j > data ! nat (j + 1)
           then (let temp = data ! nat j;
                     data1 = data[nat j := data ! nat (j + 1)];
                     data2 = data1[nat (j + 1) := temp]
                 in sortArray_inner len i data2 True (j + 1))
           else sortArray_inner len i data swapped (j + 1))
      else Inr (data, swapped))"
  by pat_completeness auto
termination
  by (relation "measure (\<lambda>(len, i, data, swapped, j). nat (len - i - 1 - j))") auto

text \<open>
  The outer loop, with the same ghost counter of inner passes as \<open>bubbleSort_outer\<close>.
  The pass that finds nothing to exchange is counted, and the loop is left after it.
\<close>

function sortArray_outer :: "int \<Rightarrow> int list \<Rightarrow> int \<Rightarrow> nat \<Rightarrow> error + (int list \<times> nat)" where
  "sortArray_outer len data i passes =
     (if \<not> in_int (len - 1) then Inl SignedOverflow
      else if i < len - 1 then
        (case sortArray_inner len i data False 0 of
           Inl e \<Rightarrow> Inl e
         | Inr (data', swapped) \<Rightarrow>
             if \<not> swapped then Inr (data', passes + 1)
             else if \<not> in_int (i + 1) then Inl SignedOverflow
             else sortArray_outer len data' (i + 1) (passes + 1))
      else Inr (data, passes))"
  by pat_completeness auto
termination
  by (relation "measure (\<lambda>(len, data, i, passes). nat (len - 1 - i))") auto

definition sortArray_run :: "int list \<Rightarrow> error + (int list \<times> nat)" where
  "sortArray_run data = (let len = to_int (int (length data)) in sortArray_outer len data 0 0)"

definition sortArray :: "int list \<Rightarrow> error + int list" where
  "sortArray data = (case sortArray_run data of Inl e \<Rightarrow> Inl e | Inr (data', passes) \<Rightarrow> Inr data')"

subsection \<open>findElement\<close>

text \<open>
  \<^verbatim>\<open>
  int findElement(const std::vector<int> &list, int key) {
    int low = 0;
    int high = list.size() - 1;
    while (low <= high) {
      int mid = low + (high - low) / 2;
      if (list[mid] == key)
        return mid;
      if (list[mid] < key)
        low = mid + 1;
      else
        high = mid - 1;
    }
    return -1;
  }
  \<close>
  The parameter \<^verbatim>\<open>list\<close> is called \<open>lst\<close> here.
\<close>

definition findElement_body :: "int list \<Rightarrow> int \<Rightarrow> int \<Rightarrow> int \<Rightarrow> error + step" where
  "findElement_body lst key low high =
     (if \<not> in_int (high - low) then Inl SignedOverflow
      else let mid = low + tdiv (high - low) 2 in
        if \<not> in_int mid then Inl SignedOverflow
        else if mid < 0 \<or> int (length lst) \<le> mid then Inl OutOfBounds
        else if lst ! nat mid = key then Inr (Return mid)
        else if lst ! nat mid < key then
          (if \<not> in_int (mid + 1) then Inl SignedOverflow else Inr (Next (mid + 1) high))
        else
          (if \<not> in_int (mid - 1) then Inl SignedOverflow else Inr (Next low (mid - 1))))"

function findElement_loop :: "int list \<Rightarrow> int \<Rightarrow> int \<Rightarrow> int \<Rightarrow> error + int" where
  "findElement_loop lst key low high =
     (if low \<le> high then
        (case findElement_body lst key low high of
           Inl e \<Rightarrow> Inl e
         | Inr (Return r) \<Rightarrow> Inr r
         | Inr (Next low' high') \<Rightarrow> findElement_loop lst key low' high')
      else Inr (- 1))"
  by pat_completeness auto
termination
proof (relation "measure (\<lambda>(lst, key, low, high). nat (high - low + 1))")
  show "wf (measure (\<lambda>(lst, key, low, high). nat (high - low + 1)))"
    by simp
next
  fix lst :: "int list" and key low high :: int and x2 :: step and x21 x22 :: int
  assume le: "low \<le> high"
    and body: "findElement_body lst key low high = Inr x2"
    and nxt: "x2 = Next x21 x22"
  have half: "tdiv (high - low) 2 = (high - low) div 2"
    using le by (cases "high - low = 0") (simp_all add: tdiv_def)
  have "(x21 = low + (high - low) div 2 + 1 \<and> x22 = high)
      \<or> (x21 = low \<and> x22 = low + (high - low) div 2 - 1)"
    using body nxt unfolding findElement_body_def half Let_def
    by (auto split: if_splits)
  then have "x22 - x21 < high - low"
    using le by auto
  then show "((lst, key, x21, x22), (lst, key, low, high))
      \<in> measure (\<lambda>(lst, key, low, high). nat (high - low + 1))"
    using le by simp
qed

inductive findElement_visits :: "int list \<Rightarrow> int \<Rightarrow> int \<Rightarrow> int \<Rightarrow> bool"
  for lst :: "int list" and key :: int where
  find_visits_init: "findElement_visits lst key 0 (to_int (int (length lst) - 1))"
| find_visits_step: "findElement_visits lst key low high \<Longrightarrow> low \<le> high \<Longrightarrow>
     findElement_body lst key low high = Inr (Next low' high') \<Longrightarrow>
     findElement_visits lst key low' high'"

definition findElement :: "int list \<Rightarrow> int \<Rightarrow> error + int" where
  "findElement lst key = findElement_loop lst key 0 (to_int (int (length lst) - 1))"

section \<open>Vocabulary of the properties\<close>

text \<open>Every adjacent pair of the first \<open>m\<close> elements is in ascending order.\<close>

definition adjacent_sorted :: "nat \<Rightarrow> int list \<Rightarrow> bool" where
  "adjacent_sorted m xs \<longleftrightarrow> (\<forall>k. Suc k < m \<longrightarrow> xs ! k \<le> xs ! Suc k)"

text \<open>The midpoint both searches compute.\<close>

definition midpoint :: "int \<Rightarrow> int \<Rightarrow> int" where
  "midpoint low high = low + tdiv (high - low) 2"

text \<open>
  One compare-and-exchange of the adjacent elements \<open>k\<close> and \<open>k + 1\<close>, the body of
  both inner loops.
\<close>

definition exchange :: "int list \<Rightarrow> nat \<Rightarrow> int list" where
  "exchange xs k = (if xs ! k > xs ! Suc k then xs[k := xs ! Suc k, Suc k := xs ! k] else xs)"

text \<open>The adjacent pairs from index \<open>j\<close> on, among the first \<open>m\<close> elements, are in order.\<close>

definition sorted_from :: "nat \<Rightarrow> nat \<Rightarrow> int list \<Rightarrow> bool" where
  "sorted_from j m xs \<longleftrightarrow> (\<forall>k. j \<le> k \<and> Suc k < m \<longrightarrow> xs ! k \<le> xs ! Suc k)"

text \<open>
  The invariant of the outer loops after \<open>I\<close> passes over the first \<open>N\<close> elements: the
  last \<open>I\<close> of them are in order, and none of the others is greater than any of these.
\<close>

definition outer_inv :: "nat \<Rightarrow> nat \<Rightarrow> int list \<Rightarrow> bool" where
  "outer_inv N I xs \<longleftrightarrow> sorted_from (N - I) N xs
     \<and> (\<forall>k l. k < N - I \<and> N - I \<le> l \<and> l < N \<longrightarrow> xs ! k \<le> xs ! l)"

declare bubbleSort_inner.simps [simp del]
declare bubbleSort_outer.simps [simp del]
declare binarySearch_loop.simps [simp del]
declare sortArray_inner.simps [simp del]
declare sortArray_outer.simps [simp del]
declare findElement_loop.simps [simp del]

section \<open>Arithmetic of the index type\<close>

lemma tdiv_half: "0 \<le> a \<Longrightarrow> tdiv a 2 = a div 2"
  by (cases "a = 0") (simp_all add: tdiv_def)

lemma to_int_in_int: "in_int (to_int x)"
  unfolding in_int_def to_int_def INT_MIN_def INT_MAX_def
  using pos_mod_bound [of 4294967296 "x + 2147483648"] pos_mod_sign [of 4294967296 "x + 2147483648"]
  by simp

lemma to_int_id: "0 \<le> x \<Longrightarrow> x \<le> INT_MAX \<Longrightarrow> to_int x = x"
  by (simp add: to_int_def INT_MAX_def)

lemma to_int_le: "0 \<le> to_int x \<Longrightarrow> - 1 \<le> x \<Longrightarrow> to_int x \<le> x"
proof -
  assume "- 1 \<le> x"
  then have "(x + 2147483648) mod 4294967296 \<le> x + 2147483648"
    by (intro zmod_le_nonneg_dividend) simp
  then show "to_int x \<le> x"
    by (simp add: to_int_def)
qed


section \<open>The compare-and-exchange step\<close>

lemma length_exchange [simp]: "length (exchange xs k) = length xs"
  by (simp add: exchange_def)

lemma mset_exchange: "Suc k < length xs \<Longrightarrow> mset (exchange xs k) = mset xs"
  using mset_swap [of "Suc k" xs k] by (simp add: exchange_def)

lemma take_exchange: "Suc k < m \<Longrightarrow> take m (exchange xs k) = exchange (take m xs) k"
  by (simp add: exchange_def take_update_swap)

lemma drop_exchange: "Suc k < m \<Longrightarrow> drop m (exchange xs k) = drop m xs"
  by (simp add: exchange_def)

lemma nth_exchange_other: "l \<noteq> k \<Longrightarrow> l \<noteq> Suc k \<Longrightarrow> exchange xs k ! l = xs ! l"
  by (simp add: exchange_def)

lemma nth_exchange_le: "Suc k < length xs \<Longrightarrow> exchange xs k ! k \<le> exchange xs k ! Suc k"
  by (simp add: exchange_def)

lemma nth_exchange_max: "Suc k < length xs \<Longrightarrow> xs ! k \<le> exchange xs k ! Suc k"
  by (simp add: exchange_def)

lemma exchange_sorted: "xs ! k \<le> xs ! Suc k \<Longrightarrow> exchange xs k = xs"
  by (simp add: exchange_def)

section \<open>The inner loop of bubbleSort\<close>

text \<open>
  While the bound \<open>n - i\<close> does not exceed the size, a pass is a sequence of
  compare-and-exchange steps: it returns, permutes the first \<open>n - i\<close> elements, leaves
  the others alone, and moves the greatest of the first \<open>n - i\<close> to their end.
\<close>

lemma inner_stop:
  "in_int (n - i) \<Longrightarrow> in_int (n - i - 1) \<Longrightarrow> \<not> j < n - i - 1 \<Longrightarrow> bubbleSort_inner n i arr j = Inr arr"
  by (subst bubbleSort_inner.simps) simp

lemma inner_step:
  assumes "in_int (n - i)" "in_int (n - i - 1)" "0 \<le> j" "j < n - i - 1" "n - i \<le> int (length arr)"
  shows "bubbleSort_inner n i arr j = bubbleSort_inner n i (exchange arr (nat j)) (j + 1)"
proof -
  have "in_int (j + 1)" "\<not> (j < 0 \<or> int (length arr) \<le> j + 1)" "nat (j + 1) = Suc (nat j)"
    using assms by (auto simp: in_int_def INT_MIN_def INT_MAX_def)
  then show ?thesis
    using assms by (subst bubbleSort_inner.simps) (simp add: exchange_def)
qed

lemma inner_returns:
  "in_int (n - i) \<Longrightarrow> in_int (n - i - 1) \<Longrightarrow> 0 \<le> j \<Longrightarrow> n - i \<le> int (length arr) \<Longrightarrow>
   \<exists>arr'. bubbleSort_inner n i arr j = Inr arr' \<and> length arr' = length arr
     \<and> mset (take (nat (n - i)) arr') = mset (take (nat (n - i)) arr)
     \<and> drop (nat (n - i)) arr' = drop (nat (n - i)) arr"
proof (induction "nat (n - i - 1 - j)" arbitrary: arr j)
  case 0
  then show ?case by (simp add: inner_stop)
next
  case (Suc d)
  then have lt: "j < n - i - 1" by linarith
  have d: "d = nat (n - i - 1 - (j + 1))" using Suc.hyps(2) by linarith
  have len: "n - i \<le> int (length (exchange arr (nat j)))" using Suc.prems by simp
  have j1: "0 \<le> j + 1" using Suc.prems by simp
  obtain arr' where r: "bubbleSort_inner n i (exchange arr (nat j)) (j + 1) = Inr arr'"
    "length arr' = length (exchange arr (nat j))"
    "mset (take (nat (n - i)) arr') = mset (take (nat (n - i)) (exchange arr (nat j)))"
    "drop (nat (n - i)) arr' = drop (nat (n - i)) (exchange arr (nat j))"
    using Suc.hyps(1) [OF d Suc.prems(1,2) j1 len] by blast
  have k: "Suc (nat j) < nat (n - i)" "Suc (nat j) < length (take (nat (n - i)) arr)"
    using lt Suc.prems by auto
  show ?case
    using r k inner_step [OF Suc.prems(1,2,3) lt Suc.prems(4)]
    by (simp add: take_exchange drop_exchange mset_exchange)
qed

lemma inner_max:
  assumes "in_int (n - i)" "in_int (n - i - 1)" "0 \<le> j" "n - i \<le> int (length arr)"
    "j \<le> n - i - 1" "\<forall>k \<le> nat j. arr ! k \<le> arr ! nat j"
    "bubbleSort_inner n i arr j = Inr arr'"
  shows "\<forall>k < nat (n - i). arr' ! k \<le> arr' ! (nat (n - i) - 1)"
  using assms
proof (induction "nat (n - i - 1 - j)" arbitrary: arr j)
  case 0
  then have j: "j = n - i - 1" by linarith
  have eq: "arr' = arr" using 0 by (simp add: inner_stop)
  have m: "nat (n - i) - 1 = nat j" using j by simp
  show ?case
  proof (intro allI impI)
    fix k assume "k < nat (n - i)"
    then have "k \<le> nat j" using m by linarith
    then show "arr' ! k \<le> arr' ! (nat (n - i) - 1)"
      using "0.prems"(6) unfolding eq m by simp
  qed
next
  case (Suc d)
  then have lt: "j < n - i - 1" by linarith
  have d: "d = nat (n - i - 1 - (j + 1))" using Suc.hyps(2) by linarith
  have len: "n - i \<le> int (length (exchange arr (nat j)))" using Suc.prems by simp
  have j1: "0 \<le> j + 1" "j + 1 \<le> n - i - 1" "nat (j + 1) = Suc (nat j)" using Suc.prems lt by auto
  have sk: "Suc (nat j) < length arr" using lt Suc.prems by auto
  have mx: "\<forall>k \<le> nat (j + 1). exchange arr (nat j) ! k \<le> exchange arr (nat j) ! nat (j + 1)"
  proof (intro allI impI)
    fix k assume "k \<le> nat (j + 1)"
    then consider "k = Suc (nat j)" | "k = nat j" | "k < nat j" using j1(3) by linarith
    then show "exchange arr (nat j) ! k \<le> exchange arr (nat j) ! nat (j + 1)"
    proof cases
      case 1 then show ?thesis by (simp add: j1(3))
    next
      case 2 then show ?thesis using nth_exchange_le [OF sk] by (simp add: j1(3))
    next
      case 3
      then have "exchange arr (nat j) ! k = arr ! k" by (simp add: nth_exchange_other)
      moreover have "arr ! k \<le> arr ! nat j" using 3 Suc.prems(6) by simp
      moreover have "arr ! nat j \<le> exchange arr (nat j) ! Suc (nat j)" by (rule nth_exchange_max [OF sk])
      ultimately show ?thesis by (simp add: j1(3))
    qed
  qed
  have r: "bubbleSort_inner n i (exchange arr (nat j)) (j + 1) = Inr arr'"
    using Suc.prems(7) inner_step [OF Suc.prems(1,2,3) lt Suc.prems(4)] by simp
  show ?case
    by (rule Suc.hyps(1) [OF d Suc.prems(1,2) j1(1) len j1(2) mx r])
qed

lemma sorted_from_step:
  "sorted_from j m xs \<longleftrightarrow> (Suc j < m \<longrightarrow> xs ! j \<le> xs ! Suc j) \<and> sorted_from (Suc j) m xs"
proof
  assume "sorted_from j m xs"
  then show "(Suc j < m \<longrightarrow> xs ! j \<le> xs ! Suc j) \<and> sorted_from (Suc j) m xs"
    by (simp add: sorted_from_def)
next
  assume r: "(Suc j < m \<longrightarrow> xs ! j \<le> xs ! Suc j) \<and> sorted_from (Suc j) m xs"
  show "sorted_from j m xs"
    unfolding sorted_from_def
  proof (intro allI impI)
    fix k assume k: "j \<le> k \<and> Suc k < m"
    show "xs ! k \<le> xs ! Suc k"
    proof (cases "k = j")
      case True
      with r k show ?thesis by simp
    next
      case False
      with k have "Suc j \<le> k" by simp
      with r k show ?thesis by (simp add: sorted_from_def)
    qed
  qed
qed

lemma inner_sorted_same:
  assumes "in_int (n - i)" "in_int (n - i - 1)" "0 \<le> j" "n - i \<le> int (length arr)"
    "sorted_from (nat j) (nat (n - i)) arr"
  shows "bubbleSort_inner n i arr j = Inr arr"
  using assms
proof (induction "nat (n - i - 1 - j)" arbitrary: j)
  case 0
  then show ?case by (simp add: inner_stop)
next
  case (Suc d)
  then have lt: "j < n - i - 1" by linarith
  have d: "d = nat (n - i - 1 - (j + 1))" using Suc.hyps(2) by linarith
  have j1: "0 \<le> j + 1" "nat (j + 1) = Suc (nat j)" using Suc.prems lt by auto
  have "Suc (nat j) < nat (n - i)" using lt Suc.prems by auto
  then have le: "arr ! nat j \<le> arr ! Suc (nat j)" and rest: "sorted_from (nat (j + 1)) (nat (n - i)) arr"
    using Suc.prems(5) sorted_from_step [of "nat j"] by (simp_all add: j1(2))
  show ?case
    using Suc.hyps(1) [OF d Suc.prems(1,2) j1(1) Suc.prems(4) rest]
      inner_step [OF Suc.prems(1,2,3) lt Suc.prems(4)] exchange_sorted [OF le]
    by simp
qed


section \<open>The outer loop of bubbleSort\<close>

lemma drop_eq_nth:
  assumes "drop m ys = drop m xs" "length ys = length xs" "m \<le> l" "l < length xs"
  shows "ys ! l = xs ! l"
proof -
  have a: "ys ! (m + (l - m)) = drop m ys ! (l - m)"
    using assms(2,3,4) by (intro nth_drop [symmetric]) simp
  have b: "xs ! (m + (l - m)) = drop m xs ! (l - m)"
    using assms(3,4) by (intro nth_drop [symmetric]) simp
  have "ys ! (m + (l - m)) = xs ! (m + (l - m))"
    unfolding a b assms(1) ..
  then show ?thesis using assms(3) by simp
qed

lemma take_mset_nth:
  assumes "mset (take m ys) = mset (take m xs)" "length ys = length xs" "k < m" "m \<le> length xs"
  shows "\<exists>k' < m. ys ! k = xs ! k'"
proof -
  have "ys ! k = take m ys ! k" using assms by simp
  moreover have "take m ys ! k \<in> set (take m ys)" using assms by (intro nth_mem) simp
  moreover have "set (take m ys) = set (take m xs)" using assms(1) by (rule mset_eq_setD)
  ultimately have "ys ! k \<in> set (take m xs)" by simp
  then obtain k' where "k' < length (take m xs)" "take m xs ! k' = ys ! k"
    by (auto simp: in_set_conv_nth)
  then show ?thesis using assms by auto
qed

lemma take_drop_mset:
  assumes "mset (take m ys) = mset (take m xs)" "drop m ys = drop m xs"
  shows "mset ys = mset xs"
proof -
  have "mset ys = mset (take m ys) + mset (drop m ys)"
    by (simp only: mset_append [symmetric] append_take_drop_id)
  also have "\<dots> = mset (take m xs) + mset (drop m xs)" using assms by simp
  also have "\<dots> = mset xs" by (simp only: mset_append [symmetric] append_take_drop_id)
  finally show ?thesis .
qed

lemma drop_eq_mono:
  assumes "drop m ys = drop m xs" "m \<le> n"
  shows "drop n ys = drop n xs"
proof -
  have "drop n ys = drop (n - m) (drop m ys)" "drop n xs = drop (n - m) (drop m xs)"
    using assms(2) by simp_all
  then show ?thesis using assms(1) by simp
qed

lemma inv_pass:
  assumes inv: "outer_inv N I xs" and I: "I < N" and N: "N \<le> length xs"
    and len: "length ys = length xs"
    and tk: "mset (take (N - I) ys) = mset (take (N - I) xs)"
    and dr: "drop (N - I) ys = drop (N - I) xs"
    and mx: "\<forall>k < N - I. ys ! k \<le> ys ! (N - I - 1)"
  shows "outer_inv N (Suc I) ys"
proof -
  let ?M = "N - I"
  have M: "0 < ?M" "?M \<le> length xs" "N - Suc I = ?M - 1" using I N by simp_all
  have same: "\<And>l. ?M \<le> l \<Longrightarrow> l < N \<Longrightarrow> ys ! l = xs ! l"
    using drop_eq_nth [OF dr len] N by simp
  have old: "\<And>k. k < ?M \<Longrightarrow> \<exists>k' < ?M. ys ! k = xs ! k'"
    using take_mset_nth [OF tk len _ M(2)] by simp
  have below: "\<And>k l. k < ?M \<Longrightarrow> ?M \<le> l \<Longrightarrow> l < N \<Longrightarrow> ys ! k \<le> ys ! l"
  proof -
    fix k l assume k: "k < ?M" and l: "?M \<le> l" "l < N"
    obtain k' where "k' < ?M" "ys ! k = xs ! k'" using old [OF k] by blast
    moreover have "xs ! k' \<le> xs ! l" using inv \<open>k' < ?M\<close> l unfolding outer_inv_def by blast
    ultimately show "ys ! k \<le> ys ! l" using same [OF l] by simp
  qed
  have p1: "sorted_from (?M - 1) N ys"
    unfolding sorted_from_def
  proof (intro allI impI)
    fix k assume k: "?M - 1 \<le> k \<and> Suc k < N"
    show "ys ! k \<le> ys ! Suc k"
    proof (cases "k = ?M - 1")
      case True
      then have "k < ?M" "?M \<le> Suc k" "Suc k < N" using M k by linarith+
      then show ?thesis by (rule below)
    next
      case False
      then have "?M \<le> k" "k < N" "?M \<le> Suc k" "Suc k < N" using k by linarith+
      then have "ys ! k = xs ! k" "ys ! Suc k = xs ! Suc k" by (simp_all only: same)
      moreover have "xs ! k \<le> xs ! Suc k"
        using inv \<open>?M \<le> k\<close> \<open>Suc k < N\<close> unfolding outer_inv_def sorted_from_def by blast
      ultimately show ?thesis by simp
    qed
  qed
  have p2: "\<forall>k l. k < ?M - 1 \<and> ?M - 1 \<le> l \<and> l < N \<longrightarrow> ys ! k \<le> ys ! l"
  proof (intro allI impI)
    fix k l assume kl: "k < ?M - 1 \<and> ?M - 1 \<le> l \<and> l < N"
    show "ys ! k \<le> ys ! l"
    proof (cases "l = ?M - 1")
      case True
      have "k < ?M" using kl by linarith
      then have "ys ! k \<le> ys ! (?M - 1)" using mx by blast
      then show ?thesis unfolding True .
    next
      case False
      then have "k < ?M" "?M \<le> l" "l < N" using kl by linarith+
      then show ?thesis by (rule below)
    qed
  qed
  show ?thesis
    unfolding outer_inv_def M(3) using p1 p2 by simp
qed

lemma inv_final:
  assumes "outer_inv N I xs" "N - I \<le> 1"
  shows "adjacent_sorted N xs"
  unfolding adjacent_sorted_def
proof (intro allI impI)
  fix k assume k: "Suc k < N"
  show "xs ! k \<le> xs ! Suc k"
  proof (cases "N - I \<le> k")
    case True
    then show ?thesis using assms(1) k by (simp add: outer_inv_def sorted_from_def)
  next
    case False
    then have "k < N - I" "N - I \<le> Suc k" using assms(2) by linarith+
    then show ?thesis using assms(1) k by (simp add: outer_inv_def)
  qed
qed

lemma outer_stop:
  "in_int (n - 1) \<Longrightarrow> \<not> i < n - 1 \<Longrightarrow> bubbleSort_outer n arr i p = Inr (arr, p)"
  by (subst bubbleSort_outer.simps) simp

lemma outer_step:
  assumes "in_int n" "0 \<le> i" "i < n - 1" "bubbleSort_inner n i arr 0 = Inr arr'"
  shows "bubbleSort_outer n arr i p = bubbleSort_outer n arr' (i + 1) (p + 1)"
proof -
  have "in_int (n - 1)" "in_int (i + 1)"
    using assms by (auto simp: in_int_def INT_MIN_def INT_MAX_def)
  then show ?thesis
    using assms by (subst bubbleSort_outer.simps) simp
qed

lemma outer_spec:
  assumes "in_int n" "0 \<le> i" "i \<le> n" "n \<le> int (length arr)" "outer_inv (nat n) (nat i) arr"
  shows "\<exists>arr'. bubbleSort_outer n arr i p = Inr (arr', p + nat (n - 1 - i))
     \<and> length arr' = length arr \<and> mset arr' = mset arr
     \<and> drop (nat n) arr' = drop (nat n) arr \<and> adjacent_sorted (nat n) arr'"
  using assms
proof (induction "nat (n - 1 - i)" arbitrary: arr i p)
  case 0
  then have "\<not> i < n - 1" "nat n - nat i \<le> 1" "in_int (n - 1)"
    by (auto simp: in_int_def INT_MIN_def INT_MAX_def)
  then show ?case
    using 0 inv_final [of "nat n" "nat i" arr] by (simp add: outer_stop)
next
  case (Suc d)
  then have lt: "i < n - 1" by linarith
  have rng: "in_int (n - i)" "in_int (n - i - 1)" "n - i \<le> int (length arr)"
    using Suc.prems lt by (auto simp: in_int_def INT_MIN_def INT_MAX_def)
  obtain a where a: "bubbleSort_inner n i arr 0 = Inr a" "length a = length arr"
    "mset (take (nat (n - i)) a) = mset (take (nat (n - i)) arr)"
    "drop (nat (n - i)) a = drop (nat (n - i)) arr"
    using inner_returns [OF rng(1,2) _ rng(3), of 0] by auto
  have mx: "\<forall>k < nat (n - i). a ! k \<le> a ! (nat (n - i) - 1)"
    using inner_max [OF rng(1,2) _ rng(3) _ _ a(1)] lt by simp
  have nn: "nat (n - i) = nat n - nat i" "nat (i + 1) = Suc (nat i)" "nat i < nat n" "nat n \<le> length arr"
    using Suc.prems lt by auto
  have inv': "outer_inv (nat n) (nat (i + 1)) a"
    using inv_pass [OF Suc.prems(5) nn(3,4) a(2)] a(3,4) mx unfolding nn by simp
  have d: "d = nat (n - 1 - (i + 1))" using Suc.hyps(2) by linarith
  have pre: "0 \<le> i + 1" "i + 1 \<le> n" "n \<le> int (length a)" using Suc.prems lt a(2) by auto
  obtain arr' where r: "bubbleSort_outer n a (i + 1) (p + 1) = Inr (arr', p + 1 + nat (n - 1 - (i + 1)))"
    "length arr' = length a" "mset arr' = mset a" "drop (nat n) arr' = drop (nat n) a"
    "adjacent_sorted (nat n) arr'"
    using Suc.hyps(1) [OF d Suc.prems(1) pre inv', of "p + 1"] by blast
  have "mset a = mset arr" by (rule take_drop_mset [OF a(3,4)])
  moreover have "drop (nat n) a = drop (nat n) arr"
    by (rule drop_eq_mono [OF a(4)]) (simp add: nn)
  moreover have "p + 1 + nat (n - 1 - (i + 1)) = p + nat (n - 1 - i)" using lt by linarith
  ultimately show ?case
    using r a(2) outer_step [OF Suc.prems(1,2) lt a(1), of p] by simp
qed

lemma outer_inv_init: "outer_inv N 0 xs"
  by (simp add: outer_inv_def sorted_from_def)

section \<open>sortArray against bubbleSort\<close>

text \<open>
  The inner loop of \<open>sortArray\<close> computes what the one of \<open>bubbleSort\<close> computes,
  and its flag says whether the scanned range was out of order. A pass over a range that
  is in order changes nothing, so leaving the outer loop after it gives the result of
  running the remaining passes.
\<close>

lemma sort_inner_stop:
  "in_int (len - i) \<Longrightarrow> in_int (len - i - 1) \<Longrightarrow> \<not> j < len - i - 1 \<Longrightarrow>
   sortArray_inner len i data sw j = Inr (data, sw)"
  by (subst sortArray_inner.simps) simp

lemma sort_inner_step:
  assumes "in_int (len - i)" "in_int (len - i - 1)" "0 \<le> j" "j < len - i - 1" "len - i \<le> int (length data)"
  shows "sortArray_inner len i data sw j =
    sortArray_inner len i (exchange data (nat j)) (sw \<or> data ! nat j > data ! Suc (nat j)) (j + 1)"
proof -
  have "in_int (j + 1)" "\<not> (j < 0 \<or> int (length data) \<le> j + 1)" "nat (j + 1) = Suc (nat j)"
    using assms by (auto simp: in_int_def INT_MIN_def INT_MAX_def)
  then show ?thesis
    using assms by (subst sortArray_inner.simps) (simp add: exchange_def)
qed

lemma sort_inner_eq:
  assumes "in_int (len - i)" "in_int (len - i - 1)" "0 \<le> j" "len - i \<le> int (length data)"
  shows "sortArray_inner len i data sw j =
    (case bubbleSort_inner len i data j of
       Inl e \<Rightarrow> Inl e
     | Inr d \<Rightarrow> Inr (d, sw \<or> \<not> sorted_from (nat j) (nat (len - i)) data))"
  using assms
proof (induction "nat (len - i - 1 - j)" arbitrary: data sw j)
  case 0
  then have stop: "\<not> j < len - i - 1" by linarith
  have "sorted_from (nat j) (nat (len - i)) data"
    unfolding sorted_from_def using stop "0.prems"(3) by auto
  then show ?case
    using 0 stop by (simp add: sort_inner_stop inner_stop)
next
  case (Suc d)
  then have lt: "j < len - i - 1" by linarith
  have d: "d = nat (len - i - 1 - (j + 1))" using Suc.hyps(2) by linarith
  have len: "len - i \<le> int (length (exchange data (nat j)))" using Suc.prems by simp
  have j1: "0 \<le> j + 1" "nat (j + 1) = Suc (nat j)" "Suc (nat j) < nat (len - i)"
    using Suc.prems lt by auto
  let ?gt = "data ! nat j > data ! Suc (nat j)"
  have flag: "(sw \<or> ?gt) \<or> \<not> sorted_from (nat (j + 1)) (nat (len - i)) (exchange data (nat j))
      \<longleftrightarrow> sw \<or> \<not> sorted_from (nat j) (nat (len - i)) data"
  proof (cases ?gt)
    case True
    then have "\<not> sorted_from (nat j) (nat (len - i)) data"
      using j1(3) sorted_from_step [of "nat j" "nat (len - i)" data] by simp
    with True show ?thesis by simp
  next
    case False
    then have "exchange data (nat j) = data" by (simp add: exchange_def)
    then show ?thesis
      using False j1 sorted_from_step [of "nat j" "nat (len - i)" data] by simp
  qed
  show ?case
    unfolding sort_inner_step [OF Suc.prems(1,2,3) lt Suc.prems(4)]
      inner_step [OF Suc.prems(1,2,3) lt Suc.prems(4)]
      Suc.hyps(1) [OF d Suc.prems(1,2) j1(1) len] flag ..
qed

lemma outer_sorted_same:
  assumes "in_int n" "0 \<le> i" "i \<le> n" "n \<le> int (length arr)" "sorted_from 0 (nat (n - i)) arr"
  shows "bubbleSort_outer n arr i p = Inr (arr, p + nat (n - 1 - i))"
  using assms
proof (induction "nat (n - 1 - i)" arbitrary: i p)
  case 0
  then have "\<not> i < n - 1" "in_int (n - 1)"
    by (auto simp: in_int_def INT_MIN_def INT_MAX_def)
  then show ?case using 0 by (simp add: outer_stop)
next
  case (Suc d)
  then have lt: "i < n - 1" by linarith
  have rng: "in_int (n - i)" "in_int (n - i - 1)" "n - i \<le> int (length arr)"
    using Suc.prems lt by (auto simp: in_int_def INT_MIN_def INT_MAX_def)
  have same: "bubbleSort_inner n i arr 0 = Inr arr"
    using inner_sorted_same [OF rng(1,2) _ rng(3), of 0] Suc.prems(5) by simp
  have d: "d = nat (n - 1 - (i + 1))" using Suc.hyps(2) by linarith
  have pre: "0 \<le> i + 1" "i + 1 \<le> n" using Suc.prems lt by auto
  have srt: "sorted_from 0 (nat (n - (i + 1))) arr"
    using Suc.prems(5) unfolding sorted_from_def by auto
  have "p + 1 + nat (n - 1 - (i + 1)) = p + nat (n - 1 - i)" using lt by linarith
  then show ?case
    using Suc.hyps(1) [OF d Suc.prems(1) pre Suc.prems(4) srt, of "p + 1"]
      outer_step [OF Suc.prems(1,2) lt same, of p] by simp
qed

lemma sort_outer_stop:
  "in_int (n - 1) \<Longrightarrow> \<not> i < n - 1 \<Longrightarrow> sortArray_outer n data i p = Inr (data, p)"
  by (subst sortArray_outer.simps) simp

lemma sort_outer_exit:
  assumes "in_int n" "0 \<le> i" "i < n - 1" "sortArray_inner n i data False 0 = Inr (data', False)"
  shows "sortArray_outer n data i p = Inr (data', p + 1)"
proof -
  have "in_int (n - 1)"
    using assms by (auto simp: in_int_def INT_MIN_def INT_MAX_def)
  then show ?thesis
    using assms by (subst sortArray_outer.simps) simp
qed

lemma sort_outer_step:
  assumes "in_int n" "0 \<le> i" "i < n - 1" "sortArray_inner n i data False 0 = Inr (data', True)"
  shows "sortArray_outer n data i p = sortArray_outer n data' (i + 1) (p + 1)"
proof -
  have "in_int (n - 1)" "in_int (i + 1)"
    using assms by (auto simp: in_int_def INT_MIN_def INT_MAX_def)
  then show ?thesis
    using assms by (subst sortArray_outer.simps) simp
qed

lemma sort_outer_eq:
  assumes "in_int n" "0 \<le> i" "i \<le> n" "n \<le> int (length data)"
  shows "\<exists>d q. sortArray_outer n data i p = Inr (d, q) \<and> q \<le> p + nat (n - 1 - i)
     \<and> bubbleSort_outer n data i p = Inr (d, p + nat (n - 1 - i))"
  using assms
proof (induction "nat (n - 1 - i)" arbitrary: data i p)
  case 0
  then have "\<not> i < n - 1" "in_int (n - 1)"
    by (auto simp: in_int_def INT_MIN_def INT_MAX_def)
  then show ?case using 0 by (simp add: outer_stop sort_outer_stop)
next
  case (Suc d)
  then have lt: "i < n - 1" by linarith
  have rng: "in_int (n - i)" "in_int (n - i - 1)" "n - i \<le> int (length data)"
    using Suc.prems lt by (auto simp: in_int_def INT_MIN_def INT_MAX_def)
  obtain a where a: "bubbleSort_inner n i data 0 = Inr a" "length a = length data"
    using inner_returns [OF rng(1,2) _ rng(3), of 0] by auto
  have sa: "sortArray_inner n i data False 0 = Inr (a, \<not> sorted_from 0 (nat (n - i)) data)"
    using sort_inner_eq [OF rng(1,2) _ rng(3), of 0 False] a(1) by simp
  have cnt: "p + 1 + nat (n - 1 - (i + 1)) = p + nat (n - 1 - i)" using lt by linarith
  show ?case
  proof (cases "sorted_from 0 (nat (n - i)) data")
    case True
    have "bubbleSort_inner n i data 0 = Inr data"
      using inner_sorted_same [OF rng(1,2) _ rng(3), of 0] True by simp
    then have "a = data" using a(1) by simp
    then have "sortArray_outer n data i p = Inr (data, p + 1)"
      using sort_outer_exit [OF Suc.prems(1,2) lt, of data data p] sa True by simp
    moreover have "bubbleSort_outer n data i p = Inr (data, p + nat (n - 1 - i))"
      by (rule outer_sorted_same [OF Suc.prems True])
    moreover have "p + 1 \<le> p + nat (n - 1 - i)" using lt by linarith
    ultimately show ?thesis by simp
  next
    case False
    have d: "d = nat (n - 1 - (i + 1))" using Suc.hyps(2) by linarith
    have pre: "0 \<le> i + 1" "i + 1 \<le> n" "n \<le> int (length a)" using Suc.prems lt a(2) by auto
    have s: "sortArray_outer n data i p = sortArray_outer n a (i + 1) (p + 1)"
      using sort_outer_step [OF Suc.prems(1,2) lt, of data a p] sa False by simp
    have b: "bubbleSort_outer n data i p = bubbleSort_outer n a (i + 1) (p + 1)"
      by (rule outer_step [OF Suc.prems(1,2) lt a(1)])
    show ?thesis
      using Suc.hyps(1) [OF d Suc.prems(1) pre, of "p + 1"] unfolding s b cnt .
  qed
qed

section \<open>The calls, by the converted size\<close>

lemma run_cases:
  fixes arr :: "int list"
  obtains (overflow) "to_int (int (length arr)) = INT_MIN"
  | (negative) "to_int (int (length arr)) < 0" "in_int (to_int (int (length arr)) - 1)"
  | (prefix) "0 \<le> to_int (int (length arr))" "to_int (int (length arr)) \<le> int (length arr)"
proof (cases "0 \<le> to_int (int (length arr))")
  case True
  then have "to_int (int (length arr)) \<le> int (length arr)"
    by (intro to_int_le) simp_all
  with True show ?thesis by (rule prefix)
next
  case False
  have r: "in_int (to_int (int (length arr)))" by (rule to_int_in_int)
  show ?thesis
  proof (cases "to_int (int (length arr)) = INT_MIN")
    case True
    then show ?thesis by (rule overflow)
  next
    case ne: False
    have "in_int (to_int (int (length arr)) - 1)"
      using r ne False by (simp add: in_int_def INT_MIN_def INT_MAX_def)
    with False show ?thesis by (intro negative) simp_all
  qed
qed

lemma sortArray_run_eq:
  "\<exists>e. sortArray_run arr = Inl e \<and> bubbleSort_run arr = Inl e
   \<or> (\<exists>d q p. sortArray_run arr = Inr (d, q) \<and> bubbleSort_run arr = Inr (d, p) \<and> q \<le> p
        \<and> p = nat (to_int (int (length arr)) - 1))"
proof (cases rule: run_cases [of arr])
  case overflow
  then have "\<not> in_int (to_int (int (length arr)) - 1)"
    by (simp add: in_int_def INT_MIN_def)
  then show ?thesis
    by (simp add: sortArray_run_def bubbleSort_run_def sortArray_outer.simps bubbleSort_outer.simps)
next
  case negative
  then show ?thesis
    by (simp add: sortArray_run_def bubbleSort_run_def outer_stop sort_outer_stop)
next
  case prefix
  show ?thesis
    using sort_outer_eq [where i = 0 and p = 0 and data = arr, OF to_int_in_int _ prefix] 
    by (auto simp: sortArray_run_def bubbleSort_run_def)
qed

lemma sortArray_eq_bubbleSort: "sortArray arr = bubbleSort arr"
  using sortArray_run_eq [of arr] by (auto simp: sortArray_def bubbleSort_def)

lemma bubbleSort_run_prefix:
  assumes "0 \<le> to_int (int (length arr))"
  shows "\<exists>r. bubbleSort_run arr = Inr (r, nat (to_int (int (length arr)) - 1))
     \<and> length r = length arr \<and> mset r = mset arr
     \<and> drop (nat (to_int (int (length arr)))) r = drop (nat (to_int (int (length arr)))) arr
     \<and> adjacent_sorted (nat (to_int (int (length arr)))) r"
proof -
  have le: "to_int (int (length arr)) \<le> int (length arr)"
    using assms by (intro to_int_le) simp_all
  show ?thesis
    using outer_spec [where i = 0 and p = 0 and arr = arr, OF to_int_in_int _ assms le] outer_inv_init
    by (simp add: bubbleSort_run_def)
qed

lemma bubbleSort_small:
  assumes "int (length arr) \<le> INT_MAX"
  shows "\<exists>r. bubbleSort_run arr = Inr (r, length arr - 1)
     \<and> length r = length arr \<and> mset r = mset arr \<and> adjacent_sorted (length r) r"
proof -
  have n: "to_int (int (length arr)) = int (length arr)"
    using assms by (intro to_int_id) simp_all
  have "nat (int (length arr) - 1) = length arr - 1" by simp
  then show ?thesis
    using bubbleSort_run_prefix [of arr] unfolding n by auto
qed

lemma bubbleSort_idem_run:
  assumes "bubbleSort arr = Inr r"
  shows "bubbleSort r = Inr r"
proof (cases rule: run_cases [of arr])
  case overflow
  then have "\<not> in_int (to_int (int (length arr)) - 1)"
    by (simp add: in_int_def INT_MIN_def)
  then have "bubbleSort arr = Inl SignedOverflow"
    by (simp add: bubbleSort_def bubbleSort_run_def bubbleSort_outer.simps)
  with assms show ?thesis by simp
next
  case negative
  then have "bubbleSort arr = Inr arr"
    by (simp add: bubbleSort_def bubbleSort_run_def outer_stop)
  with assms show ?thesis by simp
next
  case prefix
  let ?n = "to_int (int (length arr))"
  obtain r' where r': "bubbleSort_run arr = Inr (r', nat (?n - 1))" "length r' = length arr"
    "adjacent_sorted (nat ?n) r'"
    using bubbleSort_run_prefix [OF prefix(1)] by blast
  then have "r' = r" using assms by (simp add: bubbleSort_def)
  then have r: "length r = length arr" "sorted_from 0 (nat (?n - 0)) r"
    using r' by (simp_all add: adjacent_sorted_def sorted_from_def)
  have "?n \<le> int (length r)" using prefix(2) r(1) by simp
  then show ?thesis
    using outer_sorted_same [where i = 0 and p = 0 and arr = r, OF to_int_in_int _ prefix(1) _ r(2)] r(1) prefix
    by (simp add: bubbleSort_def bubbleSort_run_def)
qed

section \<open>The searches\<close>

lemma body_eq: "findElement_body = binarySearch_body"
  by (intro ext) (simp add: findElement_body_def binarySearch_body_def)

lemma loop_eq: "findElement_loop arr target left right = binarySearch_loop arr target left right"
proof (induction arr target left right rule: binarySearch_loop.induct)
  case (1 arr target left right)
  show ?case
  proof (cases "left \<le> right")
    case False
    then show ?thesis by (simp add: findElement_loop.simps binarySearch_loop.simps)
  next
    case True
    show ?thesis
    proof (cases "binarySearch_body arr target left right")
      case (Inl e)
      with True show ?thesis
        by (simp add: findElement_loop.simps [of arr target left right]
            binarySearch_loop.simps [of arr target left right] body_eq)
    next
      case (Inr s)
      show ?thesis
      proof (cases s)
        case (Return r)
        with True Inr show ?thesis
          by (simp add: findElement_loop.simps [of arr target left right]
              binarySearch_loop.simps [of arr target left right] body_eq)
      next
        case (Next l r)
        with True Inr "1.IH" [OF True Inr Next] show ?thesis
          by (simp add: findElement_loop.simps [of arr target left right]
              binarySearch_loop.simps [of arr target left right] body_eq)
      qed
    qed
  qed
qed

lemma findElement_eq_binarySearch: "findElement arr target = binarySearch arr target"
  by (simp add: findElement_def binarySearch_def loop_eq)

lemma visits_eq: "findElement_visits arr target left right = binarySearch_visits arr target left right"
proof
  assume "findElement_visits arr target left right"
  then show "binarySearch_visits arr target left right"
    by induction (auto intro: binarySearch_visits.intros simp: body_eq)
next
  assume "binarySearch_visits arr target left right"
  then show "findElement_visits arr target left right"
    by induction (auto intro: findElement_visits.intros simp: body_eq)
qed

text \<open>The midpoint of a non-empty range lies in the range.\<close>

lemma midpoint_range:
  assumes "left \<le> right"
  shows "midpoint left right = left + (right - left) div 2"
    "left \<le> midpoint left right" "midpoint left right \<le> right"
  using assms by (simp_all add: midpoint_def tdiv_half)

lemma body_cases:
  assumes "0 \<le> left" "left \<le> right" "right < int (length arr)" "right \<le> INT_MAX"
  shows "binarySearch_body arr target left right =
    (if arr ! nat (midpoint left right) = target then Inr (Return (midpoint left right))
     else if arr ! nat (midpoint left right) < target then
       (if midpoint left right = INT_MAX then Inl SignedOverflow
        else Inr (Next (midpoint left right + 1) right))
     else Inr (Next left (midpoint left right - 1)))"
proof -
  have m: "left \<le> midpoint left right" "midpoint left right \<le> right"
    using assms(2) by (rule midpoint_range)+
  have "in_int (right - left)" "in_int (midpoint left right)" "in_int (midpoint left right - 1)"
    "\<not> (midpoint left right < 0 \<or> int (length arr) \<le> midpoint left right)"
    "in_int (midpoint left right + 1) \<longleftrightarrow> midpoint left right \<noteq> INT_MAX"
    using assms m by (auto simp: in_int_def INT_MIN_def INT_MAX_def)
  then show ?thesis
    unfolding binarySearch_body_def midpoint_def [symmetric] Let_def by simp
qed

lemma visits_inv:
  assumes "binarySearch_visits arr target left right"
  shows "0 \<le> left \<and> left \<le> INT_MAX \<and> right \<le> INT_MAX \<and> right < int (length arr)
    \<and> right \<le> to_int (int (length arr) - 1)"
  using assms
proof induction
  case visits_init
  have r: "in_int (to_int (int (length arr) - 1))" by (rule to_int_in_int)
  have lt: "to_int (int (length arr) - 1) < int (length arr)"
  proof (cases "0 \<le> to_int (int (length arr) - 1)")
    case True
    then have "to_int (int (length arr) - 1) \<le> int (length arr) - 1"
      by (intro to_int_le) simp_all
    then show ?thesis by simp
  next
    case False
    then show ?thesis by simp
  qed
  show ?case using r lt by (simp add: in_int_def INT_MIN_def INT_MAX_def)
next
  case (visits_step left right left' right')
  then have pre: "0 \<le> left" "left \<le> right" "right < int (length arr)" "right \<le> INT_MAX"
    by simp_all
  have m: "left \<le> midpoint left right" "midpoint left right \<le> right"
    using pre(2) by (rule midpoint_range)+
  have "(left' = midpoint left right + 1 \<and> right' = right \<and> midpoint left right \<noteq> INT_MAX)
      \<or> (left' = left \<and> right' = midpoint left right - 1)"
    using visits_step.hyps(3) unfolding body_cases [OF pre] by (auto split: if_splits)
  then show ?case
    using visits_step.IH m pre by auto
qed


lemma loop_result:
  assumes "0 \<le> left" "right < int (length arr)" "right < INT_MAX"
  shows "\<exists>r. binarySearch_loop arr target left right = Inr r
     \<and> (r = - 1 \<or> left \<le> r \<and> r \<le> right \<and> arr ! nat r = target)"
  using assms
proof (induction "nat (right - left + 1)" arbitrary: left right rule: less_induct)
  case less
  show ?case
  proof (cases "left \<le> right")
    case False
    then show ?thesis by (simp add: binarySearch_loop.simps)
  next
    case True
    let ?m = "midpoint left right"
    have m: "left \<le> ?m" "?m \<le> right"
      using True by (rule midpoint_range)+
    have body: "binarySearch_body arr target left right =
      (if arr ! nat ?m = target then Inr (Return ?m)
       else if arr ! nat ?m < target then Inr (Next (?m + 1) right)
       else Inr (Next left (?m - 1)))"
      using body_cases [OF less.prems(1) True less.prems(2), of target] less.prems(3) m by simp
    consider (found) "arr ! nat ?m = target"
      | (up) "arr ! nat ?m \<noteq> target" "arr ! nat ?m < target"
      | (down) "arr ! nat ?m \<noteq> target" "\<not> arr ! nat ?m < target"
      by blast
    then show ?thesis
    proof cases
      case found
      then show ?thesis
        using True body m by (simp add: binarySearch_loop.simps [of arr target left right])
    next
      case up
      have "\<exists>r. binarySearch_loop arr target (?m + 1) right = Inr r
        \<and> (r = - 1 \<or> ?m + 1 \<le> r \<and> r \<le> right \<and> arr ! nat r = target)"
        using less.prems m by (intro less.hyps) auto
      then show ?thesis
        using True body up m by (auto simp: binarySearch_loop.simps [of arr target left right])
    next
      case down
      have "\<exists>r. binarySearch_loop arr target left (?m - 1) = Inr r
        \<and> (r = - 1 \<or> left \<le> r \<and> r \<le> ?m - 1 \<and> arr ! nat r = target)"
        using less.prems m by (intro less.hyps) auto
      then show ?thesis
        using True body down m by (auto simp: binarySearch_loop.simps [of arr target left right])
    qed
  qed
qed

lemma loop_finds:
  assumes "sorted arr" "0 \<le> left" "right < int (length arr)" "right < INT_MAX"
    "left \<le> k" "k \<le> right" "arr ! nat k = target"
  shows "\<exists>r. binarySearch_loop arr target left right = Inr r
     \<and> left \<le> r \<and> r \<le> right \<and> arr ! nat r = target"
  using assms
proof (induction "nat (right - left + 1)" arbitrary: left right rule: less_induct)
  case less
  have True: "left \<le> right" using less.prems by linarith
  let ?m = "midpoint left right"
  have m: "left \<le> ?m" "?m \<le> right"
    using True by (rule midpoint_range)+
  have body: "binarySearch_body arr target left right =
    (if arr ! nat ?m = target then Inr (Return ?m)
     else if arr ! nat ?m < target then Inr (Next (?m + 1) right)
     else Inr (Next left (?m - 1)))"
    using body_cases [OF less.prems(2) True less.prems(3), of target] less.prems(4) m by simp
  have mono: "\<And>a b. 0 \<le> a \<Longrightarrow> a \<le> b \<Longrightarrow> b < int (length arr) \<Longrightarrow> arr ! nat a \<le> arr ! nat b"
    using less.prems(1) by (intro sorted_nth_mono) auto
  consider (found) "arr ! nat ?m = target"
    | (up) "arr ! nat ?m \<noteq> target" "arr ! nat ?m < target"
    | (down) "arr ! nat ?m \<noteq> target" "\<not> arr ! nat ?m < target"
    by blast
  then show ?case
  proof cases
    case found
    then show ?thesis
      using True body m by (simp add: binarySearch_loop.simps [of arr target left right])
  next
    case up
    have "\<not> k \<le> ?m"
    proof
      assume "k \<le> ?m"
      then have "arr ! nat k \<le> arr ! nat ?m"
        using less.prems m by (intro mono) auto
      then show False using up less.prems(7) by simp
    qed
    then have "\<exists>r. binarySearch_loop arr target (?m + 1) right = Inr r
      \<and> ?m + 1 \<le> r \<and> r \<le> right \<and> arr ! nat r = target"
      using less.prems m by (intro less.hyps) auto
    then show ?thesis
      using True body up m by (auto simp: binarySearch_loop.simps [of arr target left right])
  next
    case down
    have "\<not> ?m \<le> k"
    proof
      assume "?m \<le> k"
      then have "arr ! nat ?m \<le> arr ! nat k"
        using less.prems m by (intro mono) auto
      then show False using down less.prems(7) by simp
    qed
    then have "\<exists>r. binarySearch_loop arr target left (?m - 1) = Inr r
      \<and> left \<le> r \<and> r \<le> ?m - 1 \<and> arr ! nat r = target"
      using less.prems m by (intro less.hyps) auto
    then show ?thesis
      using True body down m by (auto simp: binarySearch_loop.simps [of arr target left right])
  qed
qed

lemma visits_climb:
  assumes "\<forall>k < length arr. arr ! k < target" "binarySearch_visits arr target left right"
    "0 \<le> left" "left \<le> right" "right < int (length arr)" "right \<le> INT_MAX"
  shows "binarySearch_visits arr target right right"
  using assms
proof (induction "nat (right - left)" arbitrary: left rule: less_induct)
  case less
  show ?case
  proof (cases "left = right")
    case True
    with less.prems(2) show ?thesis by simp
  next
    case False
    let ?m = "midpoint left right"
    have m: "left \<le> ?m" "?m < right"
      using False less.prems(4) by (simp_all add: midpoint_def tdiv_half)
    have lt: "arr ! nat ?m < target" using less.prems m by auto
    have "binarySearch_body arr target left right = Inr (Next (?m + 1) right)"
      using body_cases [OF less.prems(3,4,5,6), of target] lt m less.prems(6) by auto
    then have v: "binarySearch_visits arr target (?m + 1) right"
      by (rule visits_step [OF less.prems(2,4)])
    show ?thesis
      using less.prems m by (intro less.hyps [OF _ less.prems(1) v]) auto
  qed
qed

lemma bubbleSort_total_cases:
  "bubbleSort S = Inl SignedOverflow \<or> (\<exists>R. bubbleSort S = Inr R \<and> length R = length S \<and> mset R = mset S)"
proof (cases rule: run_cases [of S])
  case overflow
  then have "\<not> in_int (to_int (int (length S)) - 1)"
    by (simp add: in_int_def INT_MIN_def)
  then show ?thesis
    by (simp add: bubbleSort_def bubbleSort_run_def bubbleSort_outer.simps)
next
  case negative
  then show ?thesis
    by (simp add: bubbleSort_def bubbleSort_run_def outer_stop)
next
  case prefix
  then show ?thesis
    using bubbleSort_run_prefix [OF prefix(1)] by (auto simp: bubbleSort_def)
qed

lemma binarySearch_small:
  assumes "int (length S) \<le> INT_MAX"
  shows "to_int (int (length S) - 1) = int (length S) - 1"
proof (cases "length S = 0")
  case True
  then show ?thesis by (simp add: to_int_def)
next
  case False
  then show ?thesis using assms by (intro to_int_id) simp_all
qed


section \<open>Evaluation at concrete inputs\<close>

lemmas eval_defs = bubbleSort_def bubbleSort_run_def sortArray_def sortArray_run_def
  binarySearch_def findElement_def to_int_def in_int_def INT_MAX_def INT_MIN_def tdiv_def
  binarySearch_body_def findElement_body_def
  bubbleSort_outer.simps bubbleSort_inner.simps sortArray_outer.simps sortArray_inner.simps
  binarySearch_loop.simps findElement_loop.simps

section \<open>ExchangeSort: sortedness\<close>

text \<open>
  Claim C1, for vectors whose size fits the index type. For every integer sequence \<open>S\<close>
  of at most \<open>INT_MAX = 2^31 - 1\<close> elements, \<open>bubbleSort\<close> and \<open>sortArray\<close> complete
  without undefined behaviour, leave the same sequence \<open>R\<close> of the same length, and
  every adjacent pair of \<open>R\<close> is in ascending order: \<open>R[i] \<le> R[i+1]\<close>. So \<open>R\<close>
  meets the precondition of the searches.
\<close>

theorem exchange_sort_sorted:
  assumes "int (length S) \<le> INT_MAX"
  shows "\<exists>R. bubbleSort S = Inr R \<and> sortArray S = Inr R \<and> length R = length S
    \<and> (\<forall>i. Suc i < length R \<longrightarrow> R ! i \<le> R ! Suc i) \<and> sorted R"
proof -
  obtain R where R: "bubbleSort_run S = Inr (R, length S - 1)" "length R = length S"
    "adjacent_sorted (length R) R"
    using bubbleSort_small [OF assms] by blast
  have adj: "\<forall>i. Suc i < length R \<longrightarrow> R ! i \<le> R ! Suc i"
    using R(3) by (simp add: adjacent_sorted_def)
  then have "sorted R"
    by (simp add: sorted_iff_nth_Suc)
  then have "bubbleSort S = Inr R \<and> sortArray S = Inr R \<and> length R = length S
    \<and> (\<forall>i. Suc i < length R \<longrightarrow> R ! i \<le> R ! Suc i) \<and> sorted R"
    using R(1,2) adj by (simp add: sortArray_eq_bubbleSort bubbleSort_def)
  then show ?thesis ..
qed

theorem exchange_sort_sorted_witness:
  "int (length [5, 3, 1, 4, 2 :: int]) \<le> INT_MAX
   \<and> (\<exists>R. bubbleSort [5, 3, 1, 4, 2] = Inr R \<and> sortArray [5, 3, 1, 4, 2] = Inr R
        \<and> length R = length [5, 3, 1, 4, 2 :: int]
        \<and> (\<forall>i. Suc i < length R \<longrightarrow> R ! i \<le> R ! Suc i) \<and> sorted R)"
  using exchange_sort_sorted [of "[5, 3, 1, 4, 2]"] by (simp add: INT_MAX_def)

text \<open>
  Without the bound the property fails. A vector of \<open>2^31 + 2\<close> elements has a size
  that \<^verbatim>\<open>int n = arr.size()\<close> converts to \<open>- 2^31 + 2\<close>; the outer loop condition
  \<open>0 < n - 1\<close> is false at once, no element is moved, and the last two elements
  \<open>1, 0\<close> stay out of order.
\<close>

theorem exchange_sort_unsorted_counterexample:
  "bubbleSort (replicate 2147483648 0 @ [1, 0]) = Inr (replicate 2147483648 0 @ [1, 0])
   \<and> sortArray (replicate 2147483648 0 @ [1, 0]) = Inr (replicate 2147483648 0 @ [1, 0])
   \<and> Suc 2147483648 < length (replicate 2147483648 (0::int) @ [1, 0])
   \<and> (replicate 2147483648 0 @ [1, 0]) ! 2147483648
       > (replicate 2147483648 0 @ [1, 0 :: int]) ! Suc 2147483648"
  by (simp add: eval_defs nth_append)

section \<open>ExchangeSort: the early exit\<close>




section \<open>The two files agree\<close>

text \<open>
  Claim C3, for the calls that are defined. For every input sequence of at most
  \<open>INT_MAX\<close> elements, \<open>bubbleSort\<close> and \<open>sortArray\<close> both complete and leave the same
  final sequence, and for every such sequence and every target, \<open>binarySearch\<close> and
  \<open>findElement\<close> both return, with the same result. On a sequence of any size, one of
  the two sorts completes with a final sequence exactly when the other completes with
  that sequence, and one of the two searches returns a result exactly when the other
  returns that result.
\<close>

theorem clones_agree:
  "(int (length S) \<le> INT_MAX \<longrightarrow>
      (\<exists>R. bubbleSort S = Inr R \<and> sortArray S = Inr R)
      \<and> (\<exists>r. binarySearch S t = Inr r \<and> findElement S t = Inr r))
   \<and> (bubbleSort S = Inr R \<longleftrightarrow> sortArray S = Inr R)
   \<and> (binarySearch S t = Inr r \<longleftrightarrow> findElement S t = Inr r)"
proof (intro conjI impI)
  assume small: "int (length S) \<le> INT_MAX"
  show "\<exists>R. bubbleSort S = Inr R \<and> sortArray S = Inr R"
    using bubbleSort_small [OF small] by (auto simp: sortArray_eq_bubbleSort bubbleSort_def)
  have r: "to_int (int (length S) - 1) = int (length S) - 1"
    by (rule binarySearch_small [OF small])
  show "\<exists>r. binarySearch S t = Inr r \<and> findElement S t = Inr r"
    using loop_result [of 0 "int (length S) - 1" S t] small
    by (auto simp: findElement_eq_binarySearch binarySearch_def r)
next
  show "bubbleSort S = Inr R \<longleftrightarrow> sortArray S = Inr R"
    by (simp add: sortArray_eq_bubbleSort)
next
  show "binarySearch S t = Inr r \<longleftrightarrow> findElement S t = Inr r"
    by (simp add: findElement_eq_binarySearch)
qed

theorem clones_agree_witness:
  "int (length [5, 3, 1, 4, 2 :: int]) \<le> INT_MAX
   \<and> bubbleSort [5, 3, 1, 4, 2] = Inr [1, 2, 3, 4, 5]
   \<and> sortArray [5, 3, 1, 4, 2] = Inr [1, 2, 3, 4, 5]
   \<and> binarySearch [5, 3, 1, 4, 2] 4 = Inr 3
   \<and> findElement [5, 3, 1, 4, 2] 4 = Inr 3
   \<and> (\<exists>R. bubbleSort [5, 3, 1, 4, 2] = Inr R \<and> sortArray [5, 3, 1, 4, 2] = Inr R)
   \<and> (\<exists>r. binarySearch [5, 3, 1, 4, 2] 4 = Inr r \<and> findElement [5, 3, 1, 4, 2] 4 = Inr r)"
proof -
  have h: "int (length [5, 3, 1, 4, 2 :: int]) \<le> INT_MAX"
    by (simp add: INT_MAX_def)
  have a: "bubbleSort [5, 3, 1, 4, 2] = Inr [1, 2, 3, 4, 5]"
    by (simp add: eval_defs)
  have b: "binarySearch [5, 3, 1, 4, 2] 4 = Inr 3"
    by (simp add: eval_defs)
  show ?thesis
    using h a b clones_agree [of "[5, 3, 1, 4, 2]" 4 "[1, 2, 3, 4, 5]" 3] by blast
qed

text \<open>
  On a vector of \<open>2^31\<close> elements neither sort has a defined final sequence (both
  overflow in \<open>n - 1\<close>) and, for a target above every element, neither search has a
  defined result (both overflow in \<open>mid + 1\<close>): there is nothing identical to
  compare.
\<close>

theorem clones_undefined_counterexample:
  "\<not> (\<exists>R. bubbleSort (replicate 2147483648 2) = Inr R \<and> sortArray (replicate 2147483648 2) = Inr R)
   \<and> \<not> (\<exists>r. binarySearch (replicate 2147483648 2) 9 = Inr r
          \<and> findElement (replicate 2147483648 2) 9 = Inr r)
   \<and> bubbleSort (replicate 2147483648 2) = Inl SignedOverflow
   \<and> sortArray (replicate 2147483648 2) = Inl SignedOverflow
   \<and> binarySearch (replicate 2147483648 2) 9 = Inl SignedOverflow
   \<and> findElement (replicate 2147483648 2) 9 = Inl SignedOverflow"
  by (simp add: eval_defs)

section \<open>ExchangeSort: permutation\<close>

text \<open>
  Claim C4, for the calls that complete. Every call of \<open>bubbleSort\<close> or \<open>sortArray\<close>
  on a sequence of at most \<open>INT_MAX\<close> elements completes, and whenever a call completes,
  on a sequence of any size, the multiset of the elements and the length are those
  before the call.
\<close>

theorem exchange_sort_permutation:
  "(int (length S) \<le> INT_MAX \<longrightarrow> (\<exists>R. bubbleSort S = Inr R \<and> sortArray S = Inr R))
   \<and> (bubbleSort S = Inr R \<longrightarrow> mset R = mset S \<and> length R = length S)
   \<and> (sortArray S = Inr R \<longrightarrow> mset R = mset S \<and> length R = length S)"
proof (intro conjI impI)
  assume "int (length S) \<le> INT_MAX"
  then show "\<exists>R. bubbleSort S = Inr R \<and> sortArray S = Inr R"
    using bubbleSort_small [of S] by (auto simp: sortArray_eq_bubbleSort bubbleSort_def)
next
  assume "bubbleSort S = Inr R"
  then show "mset R = mset S" "length R = length S"
    using bubbleSort_total_cases [of S] by auto
next
  assume "sortArray S = Inr R"
  then show "mset R = mset S" "length R = length S"
    using bubbleSort_total_cases [of S] by (auto simp: sortArray_eq_bubbleSort)
qed

theorem exchange_sort_permutation_witness:
  "int (length [5, 3, 1, 4, 2 :: int]) \<le> INT_MAX
   \<and> bubbleSort [5, 3, 1, 4, 2] = Inr [1, 2, 3, 4, 5]
   \<and> sortArray [5, 3, 1, 4, 2] = Inr [1, 2, 3, 4, 5]
   \<and> mset [1, 2, 3, 4, 5 :: int] = mset [5, 3, 1, 4, 2]
   \<and> length [1, 2, 3, 4, 5 :: int] = length [5, 3, 1, 4, 2 :: int]"
proof -
  have a: "bubbleSort [5, 3, 1, 4, 2] = Inr [1, 2, 3, 4, 5]"
    by (simp add: eval_defs)
  have b: "sortArray [5, 3, 1, 4, 2] = Inr [1, 2, 3, 4, 5]"
    by (simp add: eval_defs)
  have c: "int (length [5, 3, 1, 4, 2 :: int]) \<le> INT_MAX"
    by (simp add: INT_MAX_def)
  show ?thesis
    using a b c exchange_sort_permutation [of "[5, 3, 1, 4, 2]" "[1, 2, 3, 4, 5]"] by blast
qed

text \<open>
  A vector of \<open>2^31\<close> elements has a size that converts to \<open>n = INT_MIN\<close>; the loop
  condition computes \<open>n - 1\<close>, a signed overflow, and the call has no defined result.
\<close>

theorem exchange_sort_overflow_counterexample:
  "bubbleSort (replicate 2147483648 7) = Inl SignedOverflow
   \<and> sortArray (replicate 2147483648 7) = Inl SignedOverflow"
  by (simp add: eval_defs)

section \<open>OrderedSearch: a present value is found\<close>

text \<open>
  Claim C5, for vectors whose size fits the index type. For every sequence \<open>S\<close> sorted
  in ascending order with at most \<open>INT_MAX\<close> elements and every valid index \<open>k\<close>,
  \<open>binarySearch\<close> and \<open>findElement\<close> called with the target \<open>S[k]\<close> return an index
  \<open>k'\<close> of \<open>S\<close> with \<open>S[k'] = S[k]\<close>.
\<close>

theorem ordered_search_finds:
  assumes "sorted S" "k < length S" "int (length S) \<le> INT_MAX"
  shows "\<exists>k'. binarySearch S (S ! k) = Inr (int k') \<and> findElement S (S ! k) = Inr (int k')
    \<and> k' < length S \<and> S ! k' = S ! k"
proof -
  have r: "to_int (int (length S) - 1) = int (length S) - 1"
    by (rule binarySearch_small [OF assms(3)])
  obtain x where x: "binarySearch_loop S (S ! k) 0 (int (length S) - 1) = Inr x"
    "0 \<le> x" "x \<le> int (length S) - 1" "S ! nat x = S ! k"
    using loop_finds [of S 0 "int (length S) - 1" "int k" "S ! k"] assms by auto
  then have "binarySearch S (S ! k) = Inr (int (nat x))" "nat x < length S"
    by (simp_all add: binarySearch_def r)
  then have "binarySearch S (S ! k) = Inr (int (nat x)) \<and> findElement S (S ! k) = Inr (int (nat x))
    \<and> nat x < length S \<and> S ! nat x = S ! k"
    using x(4) by (simp add: findElement_eq_binarySearch)
  then show ?thesis ..
qed

theorem ordered_search_finds_witness:
  "sorted [1, 2, 2, 4, 5 :: int] \<and> 2 < length [1, 2, 2, 4, 5 :: int]
   \<and> int (length [1, 2, 2, 4, 5 :: int]) \<le> INT_MAX
   \<and> (\<exists>k'. binarySearch [1, 2, 2, 4, 5] ([1, 2, 2, 4, 5] ! 2) = Inr (int k')
        \<and> findElement [1, 2, 2, 4, 5] ([1, 2, 2, 4, 5] ! 2) = Inr (int k')
        \<and> k' < length [1, 2, 2, 4, 5 :: int] \<and> [1, 2, 2, 4, 5] ! k' = [1, 2, 2, 4, 5 :: int] ! 2)"
proof -
  have h: "sorted [1, 2, 2, 4, 5 :: int]" "2 < length [1, 2, 2, 4, 5 :: int]"
    "int (length [1, 2, 2, 4, 5 :: int]) \<le> INT_MAX"
    by (simp_all add: INT_MAX_def)
  show ?thesis
    using h ordered_search_finds [OF h] by blast
qed

text \<open>
  In a sorted vector of \<open>2^31 + 2\<close> zeros, \<^verbatim>\<open>int right = arr.size() - 1\<close> is
  \<open>- 2^31 + 1\<close>; the loop is never entered and the search for the value at index 0
  returns \<open>-1\<close>.
\<close>

theorem ordered_search_misses_counterexample:
  "sorted (replicate 2147483650 (0::int)) \<and> 0 < length (replicate 2147483650 (0::int))
   \<and> binarySearch (replicate 2147483650 0) (replicate 2147483650 0 ! 0) = Inr (- 1)
   \<and> findElement (replicate 2147483650 0) (replicate 2147483650 0 ! 0) = Inr (- 1)"
  by (simp add: eval_defs)

section \<open>OrderedSearch: an absent value\<close>

text \<open>
  Claim C6, for vectors whose size fits the index type. For every sequence \<open>S\<close> of at
  most \<open>INT_MAX\<close> elements, sorted or not, and every value \<open>v\<close> that does not occur in
  \<open>S\<close>, \<open>binarySearch\<close> and \<open>findElement\<close> return \<open>-1\<close>. On the empty sequence
  \<open>high\<close> starts at \<open>-1\<close>, below \<open>low = 0\<close>, and \<open>-1\<close> is returned.
\<close>

theorem ordered_search_absent:
  "(int (length S) \<le> INT_MAX \<and> v \<notin> set S
      \<longrightarrow> binarySearch S v = Inr (- 1) \<and> findElement S v = Inr (- 1))
   \<and> binarySearch [] v = Inr (- 1) \<and> findElement [] v = Inr (- 1)
   \<and> (0::int) > to_int (int (length ([] :: int list)) - 1)"
proof (intro conjI impI)
  assume a: "int (length S) \<le> INT_MAX \<and> v \<notin> set S"
  then have r: "to_int (int (length S) - 1) = int (length S) - 1"
    by (intro binarySearch_small) simp
  obtain x where x: "binarySearch_loop S v 0 (int (length S) - 1) = Inr x"
    "x = - 1 \<or> 0 \<le> x \<and> x \<le> int (length S) - 1 \<and> S ! nat x = v"
    using loop_result [of 0 "int (length S) - 1" S v] a by auto
  have "x = - 1"
  proof (rule ccontr)
    assume "x \<noteq> - 1"
    then have "nat x < length S" "S ! nat x = v" using x(2) by auto
    then have "v \<in> set S" using nth_mem by blast
    then show False using a by simp
  qed
  then show "binarySearch S v = Inr (- 1)" "findElement S v = Inr (- 1)"
    using x(1) by (simp_all add: findElement_eq_binarySearch binarySearch_def r)
qed (simp_all add: eval_defs)

theorem ordered_search_absent_witness:
  "int (length [1, 2, 3, 4, 5 :: int]) \<le> INT_MAX \<and> 9 \<notin> set [1, 2, 3, 4, 5 :: int]
   \<and> binarySearch [1, 2, 3, 4, 5] 9 = Inr (- 1) \<and> findElement [1, 2, 3, 4, 5] 9 = Inr (- 1)"
proof -
  have h: "int (length [1, 2, 3, 4, 5 :: int]) \<le> INT_MAX \<and> 9 \<notin> set [1, 2, 3, 4, 5 :: int]"
    by (simp add: INT_MAX_def)
  show ?thesis
    using h ordered_search_absent [of "[1, 2, 3, 4, 5]" 9] by blast
qed

text \<open>
  In a sorted vector of \<open>2^31\<close> zeros the search for \<open>1\<close> moves \<open>left\<close> up to
  \<open>INT_MAX\<close>, reads the last element, and computes \<open>left = mid + 1\<close> with
  \<open>mid = INT_MAX\<close>: a signed overflow instead of the result \<open>-1\<close>.
\<close>

theorem ordered_search_absent_overflow_counterexample:
  "sorted (replicate 2147483648 (0::int)) \<and> 1 \<notin> set (replicate 2147483648 (0::int))
   \<and> binarySearch (replicate 2147483648 0) 1 = Inl SignedOverflow
   \<and> findElement (replicate 2147483648 0) 1 = Inl SignedOverflow"
  by (simp add: eval_defs)

section \<open>OrderedSearch: the midpoint and the element access\<close>

text \<open>
  Claim C7, for vectors whose size fits the index type. Whenever the loop head of
  \<open>binarySearch\<close> or \<open>findElement\<close> is reached with \<open>low \<le> high\<close>, on any sequence and
  any target, the midpoint is \<open>mid = low + (high - low) / 2\<close>, neither the difference nor
  the sum overflows the index type, \<open>low \<le> mid \<le> high\<close> and \<open>0 \<le> mid < length\<close>, so
  the access \<open>sequence[mid]\<close> is in bounds. For a sequence of at most \<open>INT_MAX\<close>
  elements the whole iteration is free of undefined behaviour: it returns \<open>mid\<close>, or
  continues with \<open>low = mid + 1\<close>, or continues with \<open>high = mid - 1\<close>.
\<close>

theorem ordered_search_access_safe:
  assumes "binarySearch_visits S t low high \<or> findElement_visits S t low high" "low \<le> high"
  shows "midpoint low high = low + tdiv (high - low) 2
    \<and> in_int (high - low) \<and> in_int (midpoint low high)
    \<and> low \<le> midpoint low high \<and> midpoint low high \<le> high
    \<and> 0 \<le> midpoint low high \<and> midpoint low high < int (length S)
    \<and> binarySearch_body S t low high \<noteq> Inl OutOfBounds
    \<and> findElement_body S t low high \<noteq> Inl OutOfBounds
    \<and> (int (length S) \<le> INT_MAX \<longrightarrow>
         findElement_body S t low high = binarySearch_body S t low high
         \<and> binarySearch_body S t low high =
            (if S ! nat (midpoint low high) = t then Inr (Return (midpoint low high))
             else if S ! nat (midpoint low high) < t then Inr (Next (midpoint low high + 1) high)
             else Inr (Next low (midpoint low high - 1))))"
proof -
  have v: "binarySearch_visits S t low high"
    using assms(1) by (simp add: visits_eq)
  have inv: "0 \<le> low" "low \<le> INT_MAX" "high \<le> INT_MAX" "high < int (length S)"
    using visits_inv [OF v] by simp_all
  have m: "low \<le> midpoint low high" "midpoint low high \<le> high"
    using assms(2) by (rule midpoint_range)+
  have body: "binarySearch_body S t low high =
    (if S ! nat (midpoint low high) = t then Inr (Return (midpoint low high))
     else if S ! nat (midpoint low high) < t then
       (if midpoint low high = INT_MAX then Inl SignedOverflow
        else Inr (Next (midpoint low high + 1) high))
     else Inr (Next low (midpoint low high - 1)))"
    by (rule body_cases [OF inv(1) assms(2) inv(4,3)])
  have rng: "in_int (high - low)" "in_int (midpoint low high)"
    using inv m assms(2) by (auto simp: in_int_def INT_MIN_def INT_MAX_def)
  have nb: "binarySearch_body S t low high \<noteq> Inl OutOfBounds"
    unfolding body by simp
  have small: "midpoint low high \<noteq> INT_MAX" if "int (length S) \<le> INT_MAX"
    using that inv(4) m(2) by linarith
  show ?thesis
    using rng m inv(1,4) nb body small by (simp add: body_eq midpoint_def)
qed

theorem ordered_search_access_safe_witness:
  "(binarySearch_visits [1, 2, 3, 4, 5] 4 0 4 \<or> findElement_visits [1, 2, 3, 4, 5] 4 0 4)
   \<and> (0::int) \<le> 4
   \<and> midpoint 0 4 = 2 \<and> in_int (4 - 0) \<and> in_int (midpoint 0 4)
   \<and> 0 \<le> midpoint 0 4 \<and> midpoint 0 4 \<le> 4 \<and> midpoint 0 4 < int (length [1, 2, 3, 4, 5 :: int])
   \<and> int (length [1, 2, 3, 4, 5 :: int]) \<le> INT_MAX
   \<and> binarySearch_body [1, 2, 3, 4, 5] 4 0 4 = Inr (Next 3 4)
   \<and> findElement_body [1, 2, 3, 4, 5] 4 0 4 = Inr (Next 3 4)"
proof -
  have "binarySearch_visits [1, 2, 3, 4, 5] 4 0 (to_int (int (length [1, 2, 3, 4, 5 :: int]) - 1))"
    by (rule visits_init)
  then have v: "binarySearch_visits [1, 2, 3, 4, 5] 4 0 4 \<or> findElement_visits [1, 2, 3, 4, 5] 4 0 4"
    by (simp add: to_int_def)
  have le: "(0::int) \<le> 4" by simp
  have mid: "midpoint 0 4 = 2" by (simp add: midpoint_def tdiv_def)
  have small: "int (length [1, 2, 3, 4, 5 :: int]) \<le> INT_MAX" by (simp add: INT_MAX_def)
  show ?thesis
    using v small ordered_search_access_safe [OF v le, THEN conjunct2]
    by (simp add: mid in_int_def INT_MIN_def INT_MAX_def)
qed

text \<open>
  In a vector of \<open>2^31\<close> zeros searched for \<open>1\<close>, the loop head is reached with
  \<open>low = high = INT_MAX\<close>. There \<open>mid = INT_MAX\<close>, and \<open>low = mid + 1\<close> overflows the
  index type: undefined behaviour. Where the overflow wraps around, \<open>low\<close> becomes
  \<open>INT_MIN\<close>, the loop condition \<open>low \<le> high\<close> still holds, the next midpoint
  computation overflows in \<open>high - low\<close>, and the wrapped midpoint is negative: the
  access is out of bounds.
\<close>

theorem ordered_search_index_overflow_counterexample:
  "binarySearch_visits (replicate 2147483648 0) 1 2147483647 2147483647
   \<and> binarySearch_body (replicate 2147483648 0) 1 2147483647 2147483647 = Inl SignedOverflow
   \<and> \<not> in_int (midpoint 2147483647 2147483647 + 1)
   \<and> to_int (midpoint 2147483647 2147483647 + 1) \<le> 2147483647
   \<and> \<not> in_int (2147483647 - to_int (midpoint 2147483647 2147483647 + 1))
   \<and> to_int (to_int (midpoint 2147483647 2147483647 + 1)
        + tdiv (to_int (2147483647 - to_int (midpoint 2147483647 2147483647 + 1))) 2) < 0"
proof -
  let ?A = "replicate 2147483648 (0::int)"
  have "binarySearch_visits ?A 1 0 (to_int (int (length ?A) - 1))"
    by (rule visits_init)
  then have v0: "binarySearch_visits ?A 1 0 2147483647"
    by (simp add: to_int_def)
  have "binarySearch_visits ?A 1 2147483647 2147483647"
    by (rule visits_climb [OF _ v0]) (simp_all add: INT_MAX_def)
  then show ?thesis
    by (simp add: binarySearch_body_def midpoint_def tdiv_def in_int_def INT_MAX_def INT_MIN_def
        to_int_def)
qed

section \<open>Both operations return\<close>

text \<open>
  Claim C8, for vectors whose size fits the index type. Every loop of the four
  functions terminates (the termination proofs of their definitions). On every
  sequence of at most \<open>INT_MAX\<close> elements, and any target, \<open>bubbleSort\<close>, \<open>sortArray\<close>,
  \<open>binarySearch\<close> and \<open>findElement\<close> return without undefined behaviour. The empty
  and the single-element sequence are left as they are by both sorts, and the search of
  the empty sequence returns \<open>-1\<close>.
\<close>

theorem operations_return:
  assumes "int (length S) \<le> INT_MAX"
  shows "(\<exists>R. bubbleSort S = Inr R) \<and> (\<exists>R. sortArray S = Inr R)
    \<and> (\<exists>r. binarySearch S t = Inr r) \<and> (\<exists>r. findElement S t = Inr r)
    \<and> bubbleSort [] = Inr [] \<and> sortArray [] = Inr []
    \<and> bubbleSort [x] = Inr [x] \<and> sortArray [x] = Inr [x]
    \<and> binarySearch [] t = Inr (- 1) \<and> findElement [] t = Inr (- 1)"
proof -
  have s: "\<exists>R. bubbleSort S = Inr R"
    using bubbleSort_small [OF assms] by (auto simp: bubbleSort_def)
  have r: "to_int (int (length S) - 1) = int (length S) - 1"
    by (rule binarySearch_small [OF assms])
  have b: "\<exists>r. binarySearch S t = Inr r"
    using loop_result [of 0 "int (length S) - 1" S t] assms
    by (auto simp: binarySearch_def r)
  have e: "bubbleSort [] = Inr []" "bubbleSort [x] = Inr [x]" "binarySearch [] t = Inr (- 1)"
    by (simp_all add: eval_defs)
  show ?thesis
    using s b e by (simp add: sortArray_eq_bubbleSort findElement_eq_binarySearch)
qed

theorem operations_return_witness:
  "int (length [5, 3, 1, 4, 2 :: int]) \<le> INT_MAX
   \<and> (\<exists>R. bubbleSort [5, 3, 1, 4, 2] = Inr R) \<and> (\<exists>R. sortArray [5, 3, 1, 4, 2] = Inr R)
   \<and> (\<exists>r. binarySearch [5, 3, 1, 4, 2] 4 = Inr r) \<and> (\<exists>r. findElement [5, 3, 1, 4, 2] 4 = Inr r)"
proof -
  have h: "int (length [5, 3, 1, 4, 2 :: int]) \<le> INT_MAX" by (simp add: INT_MAX_def)
  show ?thesis
    using h operations_return [OF h, of 4] by blast
qed

text \<open>
  On a vector of \<open>2^31\<close> elements none of the four calls has a defined result: the
  sorts overflow in \<open>n - 1\<close>, the searches in \<open>mid + 1\<close>.
\<close>

theorem operations_undefined_counterexample:
  "findElement (replicate 2147483648 (- 1)) 0 = Inl SignedOverflow
   \<and> binarySearch (replicate 2147483648 (- 1)) 0 = Inl SignedOverflow
   \<and> sortArray (replicate 2147483648 (- 1)) = Inl SignedOverflow
   \<and> bubbleSort (replicate 2147483648 (- 1)) = Inl SignedOverflow"
  by (simp add: eval_defs)

section \<open>ExchangeSort: idempotence\<close>

text \<open>
  Claim C9, for vectors whose size fits the index type. For every integer sequence
  \<open>S\<close> of at most \<open>INT_MAX\<close> elements, \<open>bubbleSort\<close> completes with a final sequence
  \<open>R\<close>, and applied to \<open>R\<close> it completes with \<open>R\<close> again: two applications produce
  the final sequence that one produces. The same holds for \<open>sortArray\<close>, with the same
  \<open>R\<close>. On a sequence of any size, whenever a call completes with \<open>R\<close>, a second call
  on \<open>R\<close> completes with \<open>R\<close>.
\<close>

theorem exchange_sort_idempotent:
  "(int (length S) \<le> INT_MAX \<longrightarrow>
      (\<exists>R. bubbleSort S = Inr R \<and> bubbleSort R = Inr R
           \<and> sortArray S = Inr R \<and> sortArray R = Inr R))
   \<and> (bubbleSort S = Inr R \<longrightarrow> bubbleSort R = Inr R)
   \<and> (sortArray S = Inr R \<longrightarrow> sortArray R = Inr R)"
proof (intro conjI impI)
  assume small: "int (length S) \<le> INT_MAX"
  obtain R where R: "bubbleSort S = Inr R"
    using bubbleSort_small [OF small] by (auto simp: bubbleSort_def)
  have again: "bubbleSort R = Inr R"
    by (rule bubbleSort_idem_run [OF R])
  have "bubbleSort S = Inr R \<and> bubbleSort R = Inr R \<and> sortArray S = Inr R \<and> sortArray R = Inr R"
    using R again by (simp add: sortArray_eq_bubbleSort)
  then show "\<exists>R. bubbleSort S = Inr R \<and> bubbleSort R = Inr R
      \<and> sortArray S = Inr R \<and> sortArray R = Inr R" ..
next
  assume "bubbleSort S = Inr R"
  then show "bubbleSort R = Inr R"
    by (rule bubbleSort_idem_run)
next
  assume "sortArray S = Inr R"
  then have "bubbleSort S = Inr R"
    by (simp add: sortArray_eq_bubbleSort)
  then have "bubbleSort R = Inr R"
    by (rule bubbleSort_idem_run)
  then show "sortArray R = Inr R"
    by (simp add: sortArray_eq_bubbleSort)
qed

theorem exchange_sort_idempotent_witness:
  "int (length [5, 3, 1, 4, 2 :: int]) \<le> INT_MAX
   \<and> bubbleSort [5, 3, 1, 4, 2] = Inr [1, 2, 3, 4, 5] \<and> bubbleSort [1, 2, 3, 4, 5] = Inr [1, 2, 3, 4, 5]
   \<and> sortArray [5, 3, 1, 4, 2] = Inr [1, 2, 3, 4, 5] \<and> sortArray [1, 2, 3, 4, 5] = Inr [1, 2, 3, 4, 5]
   \<and> (\<exists>R. bubbleSort [5, 3, 1, 4, 2] = Inr R \<and> bubbleSort R = Inr R
        \<and> sortArray [5, 3, 1, 4, 2] = Inr R \<and> sortArray R = Inr R)"
proof -
  have h: "int (length [5, 3, 1, 4, 2 :: int]) \<le> INT_MAX"
    by (simp add: INT_MAX_def)
  have a: "bubbleSort [5, 3, 1, 4, 2] = Inr [1, 2, 3, 4, 5]"
    "sortArray [5, 3, 1, 4, 2] = Inr [1, 2, 3, 4, 5]"
    by (simp_all add: eval_defs)
  show ?thesis
    using h a exchange_sort_idempotent [of "[5, 3, 1, 4, 2]" "[1, 2, 3, 4, 5]"] by blast
qed

text \<open>
  On a vector of \<open>2^31\<close> elements the first application overflows in \<open>n - 1\<close>: neither
  one application nor two produce a final sequence.
\<close>

theorem exchange_sort_twice_undefined_counterexample:
  "\<not> (\<exists>R. bubbleSort (replicate 2147483648 4) = Inr R \<and> bubbleSort R = Inr R)
   \<and> \<not> (\<exists>R. sortArray (replicate 2147483648 4) = Inr R \<and> sortArray R = Inr R)
   \<and> bubbleSort (replicate 2147483648 4) = Inl SignedOverflow
   \<and> sortArray (replicate 2147483648 4) = Inl SignedOverflow"
  by (simp add: eval_defs)

section \<open>OrderedSearch: the result is the sentinel or a position of the target\<close>

text \<open>
  Claim C10, for vectors whose size fits the index type. For every sequence \<open>S\<close> of
  at most \<open>INT_MAX\<close> elements, sorted or not, and every target, \<open>binarySearch\<close> and
  \<open>findElement\<close> return the same \<open>r\<close>, and \<open>r\<close> is either \<open>-1\<close>, which is no index,
  or an index with \<open>0 \<le> r < length\<close> and \<open>S[r]\<close> equal to the target.
\<close>

theorem ordered_search_result_valid:
  assumes "int (length S) \<le> INT_MAX"
  shows "\<exists>r. binarySearch S t = Inr r \<and> findElement S t = Inr r
    \<and> (r = - 1 \<or> 0 \<le> r \<and> r < int (length S) \<and> S ! nat r = t)"
proof -
  have r: "to_int (int (length S) - 1) = int (length S) - 1"
    by (rule binarySearch_small [OF assms])
  obtain x where "binarySearch_loop S t 0 (int (length S) - 1) = Inr x"
    "x = - 1 \<or> 0 \<le> x \<and> x \<le> int (length S) - 1 \<and> S ! nat x = t"
    using loop_result [of 0 "int (length S) - 1" S t] assms by auto
  then have "binarySearch S t = Inr x \<and> findElement S t = Inr x
    \<and> (x = - 1 \<or> 0 \<le> x \<and> x < int (length S) \<and> S ! nat x = t)"
    by (auto simp: findElement_eq_binarySearch binarySearch_def r)
  then show ?thesis ..
qed

theorem ordered_search_result_valid_witness:
  "int (length [3, 1, 2 :: int]) \<le> INT_MAX
   \<and> (\<exists>r. binarySearch [3, 1, 2] 1 = Inr r \<and> findElement [3, 1, 2] 1 = Inr r
        \<and> (r = - 1 \<or> 0 \<le> r \<and> r < int (length [3, 1, 2 :: int]) \<and> [3, 1, 2 :: int] ! nat r = 1))"
proof -
  have h: "int (length [3, 1, 2 :: int]) \<le> INT_MAX" by (simp add: INT_MAX_def)
  show ?thesis
    using h ordered_search_result_valid [OF h, of 1] by blast
qed

text \<open>
  In a vector of \<open>2^31\<close> threes searched for \<open>5\<close> the call overflows in
  \<open>left = mid + 1\<close> and has no defined result, neither \<open>-1\<close> nor an index.
\<close>

theorem ordered_search_no_result_counterexample:
  "findElement (replicate 2147483648 3) 5 = Inl SignedOverflow
   \<and> binarySearch (replicate 2147483648 3) 5 = Inl SignedOverflow"
  by (simp add: eval_defs)

end
